theory Spec2Isabelle
  imports Complex_Main
begin

section \<open>Detection post-processing of \<open>PredictorNetwork.predict_image\<close>\<close>

text \<open>
  The embedding follows \<open>luminoth/utils/predicting.py\<close>, lines 109--114
  (\<open>bbs_pixel_apart\<close>) and 129--204 (the part of \<open>predict_image\<close> after the
  session has been run and the labels have been looked up).

  Modelling decisions:
  \<^item> a box is a row of the \<open>N \<times> 4\<close> array \<open>objects\<close>: a 4-tuple;
  \<^item> Python and numpy floats are abstracted by exact rationals (\<open>rat\<close>); the two
    non-finite results of a numpy division by zero are kept as values of their own,
    because \<open>int(round(...))\<close> raises on them;
  \<^item> the source runs under Python 2 and Python 3 (see its comment on line 141), whose
    \<open>round\<close> differ on exact halves: the interpreter is a parameter \<open>pyversion\<close>;
  \<^item> every exception the code can raise is a value \<open>Inl e\<close> of \<open>error + 'a\<close>;
  \<^item> the dict \<open>{'bbox': .., 'label': .., 'prob': ..}\<close> is the record \<open>detection\<close>;
    the label type is a parameter (a class index or a class name);
  \<^item> the calls of \<open>tf.logging.info\<close> have no effect on the result and are left out.
\<close>

subsection \<open>Errors and the Python primitives used\<close>

datatype error = AssertionError | IndexError | ValueError | OverflowError

datatype pyversion = Py2 | Py3

definition err_bind :: "error + 'a \<Rightarrow> ('a \<Rightarrow> error + 'b) \<Rightarrow> error + 'b" where
  "err_bind m f = (case m of Inl e \<Rightarrow> Inl e | Inr x \<Rightarrow> f x)"

text \<open>\<open>xs[i]\<close> for a non-negative index.\<close>

definition getitem :: "'a list \<Rightarrow> nat \<Rightarrow> error + 'a" where
  "getitem xs i = (if i < length xs then Inr (xs ! i) else Inl IndexError)"

text \<open>\<open>[xs[i] for i in idxs]\<close>\<close>

fun getitems :: "'a list \<Rightarrow> nat list \<Rightarrow> error + 'a list" where
  "getitems xs [] = Inr []"
| "getitems xs (i # idxs) =
     err_bind (getitem xs i) (\<lambda>x. err_bind (getitems xs idxs) (\<lambda>rest. Inr (x # rest)))"

text \<open>\<open>xs[i] = v\<close>\<close>

definition setitem :: "'a list \<Rightarrow> nat \<Rightarrow> 'a \<Rightarrow> error + 'a list" where
  "setitem xs i v = (if i < length xs then Inr (xs[i := v]) else Inl IndexError)"

text \<open>\<open>max(xs)\<close>: raises \<open>ValueError\<close> on an empty sequence.\<close>

fun py_max :: "rat list \<Rightarrow> error + rat" where
  "py_max [] = Inl ValueError"
| "py_max (x # xs) = Inr (foldl max x xs)"

text \<open>\<open>[index for index, prob in zip(indices, probs) if prob == max_prob][0]\<close>\<close>

definition first_index_with :: "nat list \<Rightarrow> rat list \<Rightarrow> rat \<Rightarrow> error + nat" where
  "first_index_with indices probs max_prob =
     (case filter (\<lambda>(index, prob'). prob' = max_prob) (zip indices probs) of
        [] \<Rightarrow> Inl IndexError
      | (index, prob') # rest \<Rightarrow> Inr index)"

text \<open>
  \<open>round(x)\<close>: Python 3 rounds an exact half to the even neighbour, Python 2 away from
  zero.
\<close>

definition round_half_even :: "rat \<Rightarrow> int" where
  "round_half_even q =
     (let f = \<lfloor>q\<rfloor>; d = q - of_int f
      in if d < 1 / 2 then f else if 1 / 2 < d then f + 1
         else if even f then f else f + 1)"

definition round_half_away :: "rat \<Rightarrow> int" where
  "round_half_away q = (if 0 \<le> q then \<lfloor>q + 1 / 2\<rfloor> else \<lceil>q - 1 / 2\<rceil>)"

fun py_round :: "pyversion \<Rightarrow> rat \<Rightarrow> int" where
  "py_round Py3 q = round_half_even q"
| "py_round Py2 q = round_half_away q"

text \<open>\<open>round(x, ndigits)\<close>\<close>

definition py_round_ndigits :: "pyversion \<Rightarrow> rat \<Rightarrow> nat \<Rightarrow> rat" where
  "py_round_ndigits v x ndigits = of_int (py_round v (x * 10 ^ ndigits)) / 10 ^ ndigits"

subsection \<open>Scaling the boxes back to the original image (lines 129--145)\<close>

type_synonym box = "int \<times> int \<times> int \<times> int"











subsection \<open>\<open>bbs_pixel_apart\<close> (lines 109--114)\<close>

text \<open>\<open>np.fabs(np.subtract(each_obj, obj))\<close>, one entry per coordinate.\<close>

definition fabs_subtract :: "box \<Rightarrow> box \<Rightarrow> int list" where
  "fabs_subtract each_obj obj =
     (case (each_obj, obj) of ((a0, a1, a2, a3), (b0, b1, b2, b3)) \<Rightarrow>
        [\<bar>a0 - b0\<bar>, \<bar>a1 - b1\<bar>, \<bar>a2 - b2\<bar>, \<bar>a3 - b3\<bar>])"

text \<open>\<open>np.unique(...).tolist()\<close>: the distinct values, ascending.\<close>

definition np_unique :: "int list \<Rightarrow> int list" where
  "np_unique xs = sort (remdups xs)"

definition bbs_pixel_apart :: "box \<Rightarrow> box list \<Rightarrow> nat list" where
  "bbs_pixel_apart obj objects =
     map fst (filter (\<lambda>(index, each_obj). [0, 1] = np_unique (fabs_subtract each_obj obj))
                     (enumerate 0 objects))"

subsection \<open>The suppression pass (lines 147--197)\<close>

record 'l detection =
  bbox :: box
  label :: 'l
  prob :: rat

text \<open>
  Lines 153--174: the branch on the boxes one pixel apart from \<open>obj\<close>. The loop variables
  \<open>label\<close> and \<open>prob\<close> are written \<open>label'\<close> and \<open>prob'\<close>, the plain names being the
  fields of the record. Under Python 2 the comprehension on lines 163--166 rebinds \<open>prob\<close>
  to the last entry of \<open>repeated_probs\<close>, which is the \<open>prob\<close> appended on line 157: the
  value read on line 179 is the same under both interpreters.
\<close>

definition pixel_apart_rule ::
  "pyversion \<Rightarrow> box list \<Rightarrow> 'l list \<Rightarrow> rat list \<Rightarrow> box \<Rightarrow> rat \<Rightarrow> nat \<Rightarrow>
   'l detection option list \<Rightarrow> error + 'l detection option list" where
  "pixel_apart_rule v objects labels probs obj prob' count predictions =
     (let repeated_indices = bbs_pixel_apart obj objects
      in if length repeated_indices > 0 then
           err_bind (getitems probs repeated_indices) (\<lambda>repeated_probs.
           let repeated_probs = repeated_probs @ [prob'];
               repeated_indices = repeated_indices @ [count]
           in err_bind (py_max repeated_probs) (\<lambda>max_prob.
              if length repeated_probs \<noteq> length repeated_indices then Inl AssertionError
              else
              err_bind (first_index_with repeated_indices repeated_probs max_prob) (\<lambda>prob_index.
              err_bind (getitem objects prob_index) (\<lambda>b.
              err_bind (getitem labels prob_index) (\<lambda>l.
              setitem predictions prob_index
                (Some \<lparr>bbox = b, label = l, prob = py_round_ndigits v max_prob 4\<rparr>))))))
         else Inr predictions)"

text \<open>Lines 175--196: the branches on \<open>objects.count(obj)\<close>.\<close>

definition count_rule ::
  "pyversion \<Rightarrow> box list \<Rightarrow> 'l list \<Rightarrow> rat list \<Rightarrow> box \<Rightarrow> 'l \<Rightarrow> rat \<Rightarrow> nat \<Rightarrow>
   'l detection option list \<Rightarrow> error + 'l detection option list" where
  "count_rule v objects labels probs obj label' prob' count predictions =
     (if count_list objects obj = 1 then
        setitem predictions count
          (Some \<lparr>bbox = obj, label = label', prob = py_round_ndigits v prob' 4\<rparr>)
      else if count_list objects obj > 1 then
        (let repeated_indices =
               map fst (filter (\<lambda>(i, value). value = obj) (enumerate 0 objects))
         in err_bind (getitems probs repeated_indices) (\<lambda>repeated_probs.
            err_bind (py_max repeated_probs) (\<lambda>max_prob.
            err_bind (first_index_with repeated_indices repeated_probs max_prob) (\<lambda>prob_index.
            err_bind (getitem labels prob_index) (\<lambda>l.
            setitem predictions prob_index
              (Some \<lparr>bbox = obj, label = l, prob = py_round_ndigits v max_prob 4\<rparr>))))))
      else Inr predictions)"

text \<open>The \<open>for\<close> loop over \<open>zip(objects, labels, probs)\<close>, with its counter.\<close>

fun suppress_loop ::
  "pyversion \<Rightarrow> box list \<Rightarrow> 'l list \<Rightarrow> rat list \<Rightarrow> (box \<times> 'l \<times> rat) list \<Rightarrow> nat \<Rightarrow>
   'l detection option list \<Rightarrow> error + 'l detection option list" where
  "suppress_loop v objects labels probs [] count predictions = Inr predictions"
| "suppress_loop v objects labels probs ((obj, label', prob') # rest) count predictions =
     err_bind (pixel_apart_rule v objects labels probs obj prob' count predictions)
       (\<lambda>predictions.
     err_bind (count_rule v objects labels probs obj label' prob' count predictions)
       (\<lambda>predictions.
     suppress_loop v objects labels probs rest (count + 1) predictions))"

text \<open>
  Lines 149--197: the slot array, the assertion and the loop. The assertion comes after
  the allocation of the slots and before the loop, so before any write into a slot.
\<close>

definition suppress ::
  "pyversion \<Rightarrow> box list \<Rightarrow> 'l list \<Rightarrow> rat list \<Rightarrow> error + 'l detection option list" where
  "suppress v objects labels probs =
     (let predictions = replicate (length objects) None
      in if \<not> (length objects = length labels \<and> length labels = length probs)
         then Inl AssertionError
         else suppress_loop v objects labels probs (zip objects (zip labels probs)) 0
                predictions)"

subsection \<open>Compaction and sorting (lines 199--204)\<close>

text \<open>\<open>list(filter(None, predictions))\<close>: a dict with three keys is truthy, \<open>None\<close> is not.\<close>

definition filter_None :: "'a option list \<Rightarrow> 'a list" where
  "filter_None predictions = map the (filter (\<lambda>p. p \<noteq> None) predictions)"

text \<open>
  \<open>sorted(predictions, key=lambda x: x['prob'], reverse=True)\<close>: Python's sort is stable,
  also with \<open>reverse=True\<close>. An insertion sort that puts a record in front of the first
  record whose key is not greater has the same result.
\<close>

fun insert_desc :: "'l detection \<Rightarrow> 'l detection list \<Rightarrow> 'l detection list" where
  "insert_desc x [] = [x]"
| "insert_desc x (y # ys) = (if prob y \<le> prob x then x # y # ys else y # insert_desc x ys)"

fun sorted_desc :: "'l detection list \<Rightarrow> 'l detection list" where
  "sorted_desc [] = []"
| "sorted_desc (x # xs) = insert_desc x (sorted_desc xs)"

definition postprocess ::
  "pyversion \<Rightarrow> box list \<Rightarrow> 'l list \<Rightarrow> rat list \<Rightarrow> error + 'l detection list" where
  "postprocess v objects labels probs =
     err_bind (suppress v objects labels probs) (\<lambda>predictions.
       Inr (sorted_desc (filter_None predictions)))"


subsection \<open>Notions used in the statements\<close>

text \<open>
  The record \<open>{'bbox': objects[i], 'label': labels[i], 'prob': round(probs[i], 4)}\<close> of the
  input index \<open>i\<close>.
\<close>

definition record_at :: "pyversion \<Rightarrow> box list \<Rightarrow> 'l list \<Rightarrow> rat list \<Rightarrow> nat \<Rightarrow> 'l detection" where
  "record_at v objects labels probs i =
     \<lparr>bbox = objects ! i, label = labels ! i, prob = py_round_ndigits v (probs ! i) 4\<rparr>"

text \<open>
  The relation between the slot array before and after some writes of the pass: the length is
  that of \<open>objects\<close>, and a slot either keeps its content or holds the record of its own index.
\<close>

definition slots_ok ::
  "pyversion \<Rightarrow> box list \<Rightarrow> 'l list \<Rightarrow> rat list \<Rightarrow>
   'l detection option list \<Rightarrow> 'l detection option list \<Rightarrow> bool" where
  "slots_ok v objects labels probs before after \<longleftrightarrow>
     length after = length objects \<and>
     (\<forall>j<length objects.
        after ! j = before ! j \<or> after ! j = Some (record_at v objects labels probs j))"


section \<open>Auxiliary facts\<close>

subsection \<open>The Python primitives\<close>

lemma err_bind_Inr [simp]: "err_bind (Inr x) f = f x"
  by (simp add: err_bind_def)

lemma err_bind_Inl [simp]: "err_bind (Inl e) f = Inl e"
  by (simp add: err_bind_def)

lemma getitems_in_range:
  "\<forall>i\<in>set idxs. i < length xs \<Longrightarrow> getitems xs idxs = Inr (map ((!) xs) idxs)"
  by (induction idxs) (simp_all add: getitem_def)

lemma enumerate_filter_fst:
  "map fst (filter (\<lambda>(i, x). Q x) (enumerate 0 xs)) = filter (\<lambda>i. Q (xs ! i)) [0..<length xs]"
proof (induction xs rule: rev_induct)
  case Nil
  show ?case by simp
next
  case (snoc x xs)
  have "filter (\<lambda>i. Q ((xs @ [x]) ! i)) [0..<length xs] = filter (\<lambda>i. Q (xs ! i)) [0..<length xs]"
    by (rule filter_cong) (simp_all add: nth_append)
  with snoc show ?case
    by (simp add: enumerate_append_eq)
qed

lemma bbs_pixel_apart_filter:
  "bbs_pixel_apart obj objects =
     filter (\<lambda>i. [0, 1] = np_unique (fabs_subtract (objects ! i) obj)) [0..<length objects]"
  unfolding bbs_pixel_apart_def by (rule enumerate_filter_fst)

lemma foldl_max_Max: "foldl max x xs = Max (set (x # xs))"
proof (induction xs arbitrary: x)
  case Nil
  show ?case by simp
next
  case (Cons y ys)
  have "Max (set (x # y # ys)) = Max (set (max x y # ys))"
    by (cases "ys = []") (simp_all add: max.assoc)
  with Cons show ?case by simp
qed

lemma py_max_nonempty: "xs \<noteq> [] \<Longrightarrow> py_max xs = Inr (Max (set xs))"
  by (cases xs) (simp_all add: foldl_max_Max del: Max_insert set_simps)

lemma first_index_with_map:
  "\<exists>i\<in>set idxs. f i = m \<Longrightarrow>
   \<exists>k < length idxs. first_index_with idxs (map f idxs) m = Inr (idxs ! k)
      \<and> f (idxs ! k) = m \<and> (\<forall>j<k. f (idxs ! j) \<noteq> m)"
proof (induction idxs)
  case Nil
  then show ?case by simp
next
  case (Cons a idxs)
  show ?case
  proof (cases "f a = m")
    case True
    then show ?thesis by (auto simp: first_index_with_def)
  next
    case False
    with Cons.prems have "\<exists>i\<in>set idxs. f i = m" by auto
    from Cons.IH [OF this] obtain k where k: "k < length idxs"
      "first_index_with idxs (map f idxs) m = Inr (idxs ! k)" "f (idxs ! k) = m"
      "\<forall>j<k. f (idxs ! j) \<noteq> m" by blast
    have "first_index_with (a # idxs) (map f (a # idxs)) m = Inr ((a # idxs) ! Suc k)"
      using False k(2) by (simp add: first_index_with_def)
    moreover have "\<forall>j<Suc k. f ((a # idxs) ! j) \<noteq> m"
      using False k(4) by (auto simp: less_Suc_eq_0_disj)
    ultimately show ?thesis using k(1,3) by (intro exI [of _ "Suc k"]) simp
  qed
qed


lemma group_winner:
  assumes "idxs \<noteq> []"
  shows "\<exists>k<length idxs. py_max (map f idxs) = Inr (f (idxs ! k))
           \<and> first_index_with idxs (map f idxs) (f (idxs ! k)) = Inr (idxs ! k)
           \<and> (\<forall>i\<in>set idxs. f i \<le> f (idxs ! k)) \<and> (\<forall>j<k. f (idxs ! j) < f (idxs ! k))"
proof -
  let ?m = "Max (set (map f idxs))"
  have fin: "finite (set (map f idxs))" and ne: "set (map f idxs) \<noteq> {}"
    using assms by simp_all
  have "?m \<in> set (map f idxs)" using Max_in [OF fin ne] .
  then have "\<exists>i\<in>set idxs. f i = ?m" by auto
  from first_index_with_map [OF this] obtain k where k: "k < length idxs"
    "first_index_with idxs (map f idxs) ?m = Inr (idxs ! k)" "f (idxs ! k) = ?m"
    "\<forall>j<k. f (idxs ! j) \<noteq> ?m" by blast
  have le: "f i \<le> ?m" if "i \<in> set idxs" for i
    using that Max_ge [OF fin, of "f i"] by simp
  have "f (idxs ! j) < ?m" if "j < k" for j
  proof -
    from that k(1) have "idxs ! j \<in> set idxs" by simp
    from le [OF this] k(4) that show ?thesis by (simp add: less_le)
  qed
  moreover have "py_max (map f idxs) = Inr ?m"
    using assms by (simp add: py_max_nonempty)
  ultimately show ?thesis using k le by (intro exI [of _ k]) (simp add: k(3))
qed

lemma bbs_pixel_apart_less: "i \<in> set (bbs_pixel_apart obj objects) \<Longrightarrow> i < length objects"
  by (simp add: bbs_pixel_apart_filter)

lemma pixel_apart_rule_empty:
  "bbs_pixel_apart obj objects = [] \<Longrightarrow>
   pixel_apart_rule v objects labels probs obj p count predictions = Inr predictions"
  by (simp add: pixel_apart_rule_def)

lemma pixel_apart_rule_write:
  assumes len: "length labels = length objects" "length probs = length objects"
      "length predictions = length objects"
    and count: "count < length objects"
    and ne: "bbs_pixel_apart obj objects \<noteq> []"
  shows "\<exists>k<length (bbs_pixel_apart obj objects @ [count]).
     pixel_apart_rule v objects labels probs obj (probs ! count) count predictions =
       Inr (predictions[(bbs_pixel_apart obj objects @ [count]) ! k :=
              Some (record_at v objects labels probs ((bbs_pixel_apart obj objects @ [count]) ! k))])
     \<and> (\<forall>i\<in>set (bbs_pixel_apart obj objects @ [count]).
           probs ! i \<le> probs ! ((bbs_pixel_apart obj objects @ [count]) ! k))
     \<and> (\<forall>j<k. probs ! ((bbs_pixel_apart obj objects @ [count]) ! j)
                 < probs ! ((bbs_pixel_apart obj objects @ [count]) ! k))"
proof -
  let ?near = "bbs_pixel_apart obj objects"
  let ?group = "?near @ [count]"
  have in_range: "\<forall>i\<in>set ?near. i < length probs"
    using len by (simp add: bbs_pixel_apart_less)
  have probs: "getitems probs ?near = Inr (map ((!) probs) ?near)"
    using in_range by (rule getitems_in_range)
  have "?group \<noteq> []" by simp
  from group_winner [OF this, of "(!) probs"] obtain k where k: "k < length ?group"
    "py_max (map ((!) probs) ?group) = Inr (probs ! (?group ! k))"
    "first_index_with ?group (map ((!) probs) ?group) (probs ! (?group ! k)) = Inr (?group ! k)"
    "\<forall>i\<in>set ?group. probs ! i \<le> probs ! (?group ! k)"
    "\<forall>j<k. probs ! (?group ! j) < probs ! (?group ! k)" by blast
  have "?group ! k \<in> set ?group" using k(1) by (rule nth_mem)
  then have w: "?group ! k < length objects"
    using count by (auto simp: bbs_pixel_apart_less)
  have "pixel_apart_rule v objects labels probs obj (probs ! count) count predictions =
      Inr (predictions[?group ! k := Some (record_at v objects labels probs (?group ! k))])"
    using ne probs k(2,3) w len
    by (simp add: pixel_apart_rule_def Let_def getitem_def setitem_def record_at_def)
  with k(1,4,5) show ?thesis by blast
qed

lemma nth_eq_in_split:
  assumes "x \<notin> set pref" "x \<notin> set rest" "k < length (pref @ x # rest)"
    "(pref @ x # rest) ! k = x"
  shows "k = length pref"
proof (rule ccontr)
  assume "k \<noteq> length pref"
  then consider "k < length pref" | "length pref < k" by linarith
  then show False
  proof cases
    case 1
    then have "(pref @ x # rest) ! k \<in> set pref" by (simp add: nth_append)
    with assms(1,4) show ?thesis by metis
  next
    case 2
    define d where "d = k - Suc (length pref)"
    with 2 have d: "k = length pref + Suc d" by simp
    with assms(3) have "d < length rest" by simp
    then have "rest ! d \<in> set rest" by simp
    moreover have "(pref @ x # rest) ! k = rest ! d" unfolding d by (simp add: nth_append)
    ultimately show ?thesis using assms(2,4) by metis
  qed
qed

lemma count_list_one_unique:
  assumes "count_list xs x = 1" "i < length xs" "j < length xs" "xs ! i = x" "xs ! j = x"
  shows "i = j"
proof -
  from assms(1) have "count_list xs x = Suc 0" by simp
  from count_list_Suc_split_first [OF this] obtain pref rest where
    xs: "xs = pref @ x # rest" and pref: "x \<notin> set pref" and "count_list rest x = 0"
    by blast
  then have rest: "x \<notin> set rest" by (simp add: count_list_0_iff)
  have "i = length pref"
    using nth_eq_in_split [OF pref rest] assms(2,4) unfolding xs by blast
  moreover have "j = length pref"
    using nth_eq_in_split [OF pref rest] assms(3,5) unfolding xs by blast
  ultimately show ?thesis by simp
qed

lemma first_in_sorted:
  assumes "sorted_wrt (<) (idxs :: nat list)" "k < length idxs" "i \<in> set idxs" "i < idxs ! k"
  shows "\<exists>j<k. idxs ! j = i"
proof -
  from assms(3) obtain j where j: "j < length idxs" "idxs ! j = i"
    by (auto simp: in_set_conv_nth)
  have "j < k"
  proof (rule ccontr)
    assume "\<not> j < k"
    then have "k = j \<or> k < j" by linarith
    then have "idxs ! k \<le> idxs ! j"
      using assms(1) j(1) by (auto simp: sorted_wrt_iff_nth_less less_imp_le)
    with assms(4) j(2) show False by simp
  qed
  with j(2) show ?thesis by blast
qed

lemma count_rule_write:
  assumes len: "length labels = length objects" "length probs = length objects"
      "length predictions = length objects"
    and count: "count < length objects"
  shows "\<exists>w<length objects.
     count_rule v objects labels probs (objects ! count) (labels ! count) (probs ! count) count
       predictions = Inr (predictions[w := Some (record_at v objects labels probs w)])
     \<and> objects ! w = objects ! count
     \<and> (count_list objects (objects ! count) = 1 \<longrightarrow> w = count)
     \<and> (\<forall>i<length objects. objects ! i = objects ! count \<longrightarrow> probs ! i \<le> probs ! w)
     \<and> (\<forall>i<w. objects ! i = objects ! count \<longrightarrow> probs ! i < probs ! w)"
proof (cases "count_list objects (objects ! count) = 1")
  case True
  have one: "i = count" if "i < length objects" "objects ! i = objects ! count" for i
    using count_list_one_unique [OF True that(1) count that(2)] by simp
  have "count_rule v objects labels probs (objects ! count) (labels ! count) (probs ! count) count
       predictions = Inr (predictions[count := Some (record_at v objects labels probs count)])"
    using True len count by (simp add: count_rule_def setitem_def record_at_def)
  moreover have "\<forall>i<length objects. objects ! i = objects ! count \<longrightarrow> probs ! i \<le> probs ! count"
  proof (intro allI impI)
    fix i assume "i < length objects" "objects ! i = objects ! count"
    then have "i = count" by (rule one)
    then show "probs ! i \<le> probs ! count" by simp
  qed
  moreover have "\<forall>i<count. objects ! i = objects ! count \<longrightarrow> probs ! i < probs ! count"
  proof (intro allI impI)
    fix i assume i: "i < count" "objects ! i = objects ! count"
    with count have "i < length objects" by simp
    then have "i = count" using i(2) by (rule one)
    with i(1) show "probs ! i < probs ! count" by simp
  qed
  ultimately show ?thesis using count by blast
next
  case False
  let ?obj = "objects ! count"
  let ?idxs = "filter (\<lambda>i. objects ! i = ?obj) [0..<length objects]"
  have "?obj \<in> set objects" using count by simp
  then have "count_list objects ?obj \<noteq> 0" by (simp add: count_list_0_iff)
  with False have many: "count_list objects ?obj > 1" by linarith
  have idxs: "map fst (filter (\<lambda>(i, value). value = ?obj) (enumerate 0 objects)) = ?idxs"
    by (rule enumerate_filter_fst)
  have "count \<in> set ?idxs" using count by simp
  then have ne: "?idxs \<noteq> []" by (metis empty_iff empty_set)
  have in_range: "\<forall>i\<in>set ?idxs. i < length probs" using len by simp
  have probs: "getitems probs ?idxs = Inr (map ((!) probs) ?idxs)"
    using in_range by (rule getitems_in_range)
  from group_winner [OF ne, of "(!) probs"] obtain k where k: "k < length ?idxs"
    "py_max (map ((!) probs) ?idxs) = Inr (probs ! (?idxs ! k))"
    "first_index_with ?idxs (map ((!) probs) ?idxs) (probs ! (?idxs ! k)) = Inr (?idxs ! k)"
    "\<forall>i\<in>set ?idxs. probs ! i \<le> probs ! (?idxs ! k)"
    "\<forall>j<k. probs ! (?idxs ! j) < probs ! (?idxs ! k)" by blast
  let ?w = "?idxs ! k"
  have "?w \<in> set ?idxs" using k(1) by (rule nth_mem)
  then have w: "?w < length objects" "objects ! ?w = ?obj" by simp_all
  have run: "count_rule v objects labels probs ?obj (labels ! count) (probs ! count) count
       predictions = Inr (predictions[?w := Some (record_at v objects labels probs ?w)])"
  proof -
    have "count_rule v objects labels probs ?obj (labels ! count) (probs ! count) count predictions =
        err_bind (getitems probs ?idxs) (\<lambda>repeated_probs.
            err_bind (py_max repeated_probs) (\<lambda>max_prob.
            err_bind (first_index_with ?idxs repeated_probs max_prob) (\<lambda>prob_index.
            err_bind (getitem labels prob_index) (\<lambda>l.
            setitem predictions prob_index
              (Some \<lparr>bbox = ?obj, label = l, prob = py_round_ndigits v max_prob 4\<rparr>)))))"
      using False many unfolding count_rule_def Let_def idxs by simp
    also have "\<dots> = setitem predictions ?w
              (Some \<lparr>bbox = ?obj, label = labels ! ?w, prob = py_round_ndigits v (probs ! ?w) 4\<rparr>)"
      unfolding probs err_bind_Inr k(2) k(3) using w(1) len(1) by (simp add: getitem_def)
    also have "\<dots> = Inr (predictions[?w := Some (record_at v objects labels probs ?w)])"
      using w len(3) unfolding record_at_def setitem_def by simp
    finally show ?thesis .
  qed
  have le: "\<forall>i<length objects. objects ! i = ?obj \<longrightarrow> probs ! i \<le> probs ! ?w"
    using k(4) by simp
  have srt: "sorted_wrt (<) ?idxs" by (rule sorted_wrt_filter) simp
  have lt: "\<forall>i<?w. objects ! i = ?obj \<longrightarrow> probs ! i < probs ! ?w"
  proof (intro allI impI)
    fix i assume i: "i < ?w" "objects ! i = ?obj"
    with w(1) have "i \<in> set ?idxs" by simp
    from first_in_sorted [OF srt k(1) this i(1)] obtain j where "j < k" "?idxs ! j = i" by blast
    with k(5) show "probs ! i < probs ! ?w" by auto
  qed
  from w run le lt False show ?thesis by blast
qed

lemma slots_ok_refl: "length p = length objects \<Longrightarrow> slots_ok v objects labels probs p p"
  by (simp add: slots_ok_def)

lemma slots_ok_trans:
  "slots_ok v objects labels probs p q \<Longrightarrow> slots_ok v objects labels probs q r \<Longrightarrow>
   slots_ok v objects labels probs p r"
  unfolding slots_ok_def by metis

lemma slots_ok_update:
  "length p = length objects \<Longrightarrow>
   slots_ok v objects labels probs p (p[w := Some (record_at v objects labels probs w)])"
proof -
  assume len: "length p = length objects"
  have "p[w := Some (record_at v objects labels probs w)] ! j = p ! j \<or>
        p[w := Some (record_at v objects labels probs w)] ! j =
          Some (record_at v objects labels probs j)" if "j < length objects" for j
  proof (cases "w = j")
    case True
    with that len show ?thesis by simp
  next
    case False
    then show ?thesis by simp
  qed
  with len show ?thesis by (simp add: slots_ok_def)
qed

lemma pixel_apart_rule_slots:
  assumes len: "length labels = length objects" "length probs = length objects"
      "length predictions = length objects"
    and count: "count < length objects"
  shows "\<exists>p1. pixel_apart_rule v objects labels probs obj (probs ! count) count predictions = Inr p1
           \<and> slots_ok v objects labels probs predictions p1"
proof (cases "bbs_pixel_apart obj objects = []")
  case True
  then show ?thesis using len(3) by (simp add: pixel_apart_rule_empty slots_ok_refl)
next
  case False
  from pixel_apart_rule_write [OF len count False, of v] obtain w where
    "pixel_apart_rule v objects labels probs obj (probs ! count) count predictions =
       Inr (predictions[w := Some (record_at v objects labels probs w)])" by blast
  then show ?thesis using slots_ok_update [OF len(3)] by metis
qed

lemma loop_body:
  assumes len: "length labels = length objects" "length probs = length objects"
      "length predictions = length objects"
    and count: "count < length objects"
  shows "\<exists>p2.
     err_bind (pixel_apart_rule v objects labels probs (objects ! count) (probs ! count) count
                 predictions)
       (count_rule v objects labels probs (objects ! count) (labels ! count) (probs ! count) count)
       = Inr p2
     \<and> slots_ok v objects labels probs predictions p2
     \<and> (count_list objects (objects ! count) = 1 \<longrightarrow>
          p2 ! count = Some (record_at v objects labels probs count))"
proof -
  from pixel_apart_rule_slots [OF len count, of v "objects ! count"] obtain p1 where p1:
    "pixel_apart_rule v objects labels probs (objects ! count) (probs ! count) count predictions
       = Inr p1"
    "slots_ok v objects labels probs predictions p1" by blast
  then have len1: "length p1 = length objects" by (simp add: slots_ok_def)
  from count_rule_write [OF len(1,2) len1 count, of v] obtain w where w: "w < length objects"
    "count_rule v objects labels probs (objects ! count) (labels ! count) (probs ! count) count p1
       = Inr (p1[w := Some (record_at v objects labels probs w)])"
    "count_list objects (objects ! count) = 1 \<longrightarrow> w = count" by blast
  let ?p2 = "p1[w := Some (record_at v objects labels probs w)]"
  have "slots_ok v objects labels probs predictions ?p2"
    using p1(2) slots_ok_update [OF len1] by (rule slots_ok_trans)
  moreover have "count_list objects (objects ! count) = 1 \<longrightarrow>
      ?p2 ! count = Some (record_at v objects labels probs count)"
    using w(3) count len1 by auto
  ultimately show ?thesis using p1(1) w(2) by simp
qed

lemma suppress_loop_slots:
  assumes len: "length labels = length objects" "length probs = length objects"
  shows "length predictions = length objects \<Longrightarrow>
     rest = drop count (zip objects (zip labels probs)) \<Longrightarrow>
     \<exists>final. suppress_loop v objects labels probs rest count predictions = Inr final
       \<and> slots_ok v objects labels probs predictions final
       \<and> (\<forall>i<length objects. count \<le> i \<and> count_list objects (objects ! i) = 1 \<longrightarrow>
             final ! i = Some (record_at v objects labels probs i))"
proof (induction rest arbitrary: count predictions)
  case Nil
  then have "length objects \<le> count" using len by simp
  with Nil show ?case by (simp add: slots_ok_refl)
next
  case (Cons x rest)
  let ?zs = "zip objects (zip labels probs)"
  have lz: "length ?zs = length objects" using len by simp
  have count: "count < length objects"
  proof (rule ccontr)
    assume "\<not> count < length objects"
    with lz have "drop count ?zs = []" by simp
    with Cons.prems(2) show False by simp
  qed
  have "drop count ?zs = ?zs ! count # drop (Suc count) ?zs"
    using count lz by (simp add: Cons_nth_drop_Suc)
  with Cons.prems(2) have x: "x = ?zs ! count" and rest: "rest = drop (Suc count) ?zs"
    by simp_all
  have x': "x = (objects ! count, labels ! count, probs ! count)"
    using x count len by simp
  from loop_body [OF len Cons.prems(1) count, of v] obtain p2 where p2:
    "err_bind (pixel_apart_rule v objects labels probs (objects ! count) (probs ! count) count
                 predictions)
       (count_rule v objects labels probs (objects ! count) (labels ! count) (probs ! count) count)
       = Inr p2"
    "slots_ok v objects labels probs predictions p2"
    "count_list objects (objects ! count) = 1 \<longrightarrow>
          p2 ! count = Some (record_at v objects labels probs count)" by blast
  have len2: "length p2 = length objects" using p2(2) by (simp add: slots_ok_def)
  from Cons.IH [OF len2 rest] obtain final where final:
    "suppress_loop v objects labels probs rest (Suc count) p2 = Inr final"
    "slots_ok v objects labels probs p2 final"
    "\<forall>i<length objects. Suc count \<le> i \<and> count_list objects (objects ! i) = 1 \<longrightarrow>
             final ! i = Some (record_at v objects labels probs i)" by blast
  have run: "suppress_loop v objects labels probs (x # rest) count predictions = Inr final"
  proof -
    have "suppress_loop v objects labels probs (x # rest) count predictions =
      err_bind (err_bind (pixel_apart_rule v objects labels probs (objects ! count) (probs ! count) count
                 predictions)
       (count_rule v objects labels probs (objects ! count) (labels ! count) (probs ! count) count))
       (suppress_loop v objects labels probs rest (count + 1))"
      unfolding x' by (simp add: err_bind_def split: sum.splits)
    then show ?thesis using p2(1) final(1) by simp
  qed
  have ok: "slots_ok v objects labels probs predictions final"
    using p2(2) final(2) by (rule slots_ok_trans)
  have uniq: "final ! i = Some (record_at v objects labels probs i)"
    if i: "i < length objects" "count \<le> i" "count_list objects (objects ! i) = 1" for i
  proof (cases "i = count")
    case True
    with p2(3) i(3) have "p2 ! count = Some (record_at v objects labels probs count)" by simp
    moreover have "final ! count = p2 ! count \<or>
        final ! count = Some (record_at v objects labels probs count)"
      using final(2) count by (simp add: slots_ok_def)
    ultimately show ?thesis using True by auto
  next
    case False
    with i(2) have "Suc count \<le> i" by simp
    with final(3) i(1,3) show ?thesis by simp
  qed
  from run ok uniq show ?case by blast
qed


lemma suppress_slots:
  assumes len: "length labels = length objects" "length probs = length objects"
  shows "\<exists>final. suppress v objects labels probs = Inr final
     \<and> length final = length objects
     \<and> (\<forall>j<length objects.
           final ! j = None \<or> final ! j = Some (record_at v objects labels probs j))
     \<and> (\<forall>i<length objects. count_list objects (objects ! i) = 1 \<longrightarrow>
           final ! i = Some (record_at v objects labels probs i))"
proof -
  let ?init = "replicate (length objects) (None :: 'a detection option)"
  have "length ?init = length objects" by simp
  moreover have "zip objects (zip labels probs) = drop 0 (zip objects (zip labels probs))"
    by simp
  ultimately obtain final where final:
    "suppress_loop v objects labels probs (zip objects (zip labels probs)) 0 ?init = Inr final"
    "slots_ok v objects labels probs ?init final"
    "\<forall>i<length objects. 0 \<le> i \<and> count_list objects (objects ! i) = 1 \<longrightarrow>
             final ! i = Some (record_at v objects labels probs i)"
    using suppress_loop_slots [OF len, of ?init _ 0 v] by blast
  have "suppress v objects labels probs = Inr final"
    using len final(1) by (simp add: suppress_def)
  moreover have "length final = length objects" using final(2) by (simp add: slots_ok_def)
  moreover have "\<forall>j<length objects.
           final ! j = None \<or> final ! j = Some (record_at v objects labels probs j)"
    using final(2) by (simp add: slots_ok_def)
  ultimately show ?thesis using final(3) by simp
qed

lemma filter_None_snoc:
  "filter_None (ps @ [p]) = filter_None ps @ (case p of None \<Rightarrow> [] | Some d \<Rightarrow> [d])"
  by (simp add: filter_None_def split: option.splits)

lemma filter_None_slots:
  "\<forall>j<length ps. ps ! j = None \<or> ps ! j = Some (f j) \<Longrightarrow>
   filter_None ps = map f (filter (\<lambda>j. ps ! j \<noteq> None) [0..<length ps])"
proof (induction ps rule: rev_induct)
  case Nil
  show ?case by (simp add: filter_None_def)
next
  case (snoc p ps)
  have old: "\<forall>j<length ps. ps ! j = None \<or> ps ! j = Some (f j)"
  proof (intro allI impI)
    fix j assume j: "j < length ps"
    with snoc.prems have "(ps @ [p]) ! j = None \<or> (ps @ [p]) ! j = Some (f j)" by simp
    with j show "ps ! j = None \<or> ps ! j = Some (f j)" by (simp add: nth_append)
  qed
  have last: "p = None \<or> p = Some (f (length ps))"
    using snoc.prems by (auto dest: spec [of _ "length ps"])
  have same: "filter (\<lambda>j. (ps @ [p]) ! j \<noteq> None) [0..<length ps] =
      filter (\<lambda>j. ps ! j \<noteq> None) [0..<length ps]"
    by (rule filter_cong) (simp_all add: nth_append)
  have "filter (\<lambda>j. (ps @ [p]) ! j \<noteq> None) [0..<length (ps @ [p])] =
      filter (\<lambda>j. (ps @ [p]) ! j \<noteq> None) [0..<length ps] @
      filter (\<lambda>j. (ps @ [p]) ! j \<noteq> None) [length ps]"
    by simp
  also have "\<dots> = filter (\<lambda>j. ps ! j \<noteq> None) [0..<length ps] @
      (if p \<noteq> None then [length ps] else [])"
    unfolding same by simp
  finally have idx: "map f (filter (\<lambda>j. (ps @ [p]) ! j \<noteq> None) [0..<length (ps @ [p])]) =
      filter_None ps @ (if p \<noteq> None then [f (length ps)] else [])"
    using snoc.IH [OF old] by simp
  have "(case p of None \<Rightarrow> [] | Some d \<Rightarrow> [d]) = (if p \<noteq> None then [f (length ps)] else [])"
    using last by auto
  then show ?case unfolding idx filter_None_snoc by simp
qed

lemma length_filter_None: "length (filter_None ps) \<le> length ps"
  by (simp add: filter_None_def)

lemma length_insert_desc: "length (insert_desc x ys) = Suc (length ys)"
  by (induction ys) simp_all

lemma length_sorted_desc: "length (sorted_desc xs) = length xs"
  by (induction xs) (simp_all add: length_insert_desc)

lemma set_insert_desc: "set (insert_desc x ys) = insert x (set ys)"
  by (induction ys) auto

lemma set_sorted_desc: "set (sorted_desc xs) = set xs"
  by (induction xs) (simp_all add: set_insert_desc)

lemma sorted_insert_desc:
  "sorted_wrt (\<lambda>a b. prob b \<le> prob a) ys \<Longrightarrow>
   sorted_wrt (\<lambda>a b. prob b \<le> prob a) (insert_desc x ys)"
  by (induction ys) (auto simp: set_insert_desc)

lemma sorted_sorted_desc: "sorted_wrt (\<lambda>a b. prob b \<le> prob a) (sorted_desc xs)"
  by (induction xs) (simp_all add: sorted_insert_desc)

lemma filter_insert_desc:
  "filter (\<lambda>r. prob r = k) (insert_desc x ys) =
     (if prob x = k then x # filter (\<lambda>r. prob r = k) ys else filter (\<lambda>r. prob r = k) ys)"
  by (induction ys) auto

lemma sorted_desc_stable:
  "filter (\<lambda>r. prob r = k) (sorted_desc xs) = filter (\<lambda>r. prob r = k) xs"
  by (induction xs) (simp_all add: filter_insert_desc)

lemma insert_desc_map:
  "\<exists>ys1 ys2. js = ys1 @ ys2 \<and> insert_desc (f j) (map f js) = map f (ys1 @ j # ys2)"
proof (induction js)
  case Nil
  show ?case by simp
next
  case (Cons a js)
  show ?case
  proof (cases "prob (f a) \<le> prob (f j)")
    case True
    then have "a # js = [] @ (a # js) \<and>
       insert_desc (f j) (map f (a # js)) = map f ([] @ j # (a # js))" by simp
    then show ?thesis by blast
  next
    case False
    from Cons obtain ys1 ys2 where "js = ys1 @ ys2"
      "insert_desc (f j) (map f js) = map f (ys1 @ j # ys2)" by blast
    with False have "a # js = (a # ys1) @ ys2 \<and>
       insert_desc (f j) (map f (a # js)) = map f ((a # ys1) @ j # ys2)" by simp
    then show ?thesis by blast
  qed
qed

lemma sorted_desc_map:
  "\<exists>js'. set js' = set js \<and> (distinct js \<longrightarrow> distinct js') \<and> sorted_desc (map f js) = map f js'"
proof (induction js)
  case Nil
  show ?case by simp
next
  case (Cons j js)
  then obtain js' where js': "set js' = set js" "distinct js \<longrightarrow> distinct js'"
    "sorted_desc (map f js) = map f js'" by blast
  from insert_desc_map [of js' f j] obtain ys1 ys2 where ys: "js' = ys1 @ ys2"
    "insert_desc (f j) (map f js') = map f (ys1 @ j # ys2)" by blast
  have "set (ys1 @ j # ys2) = set (j # js)" using js'(1) ys(1) by auto
  moreover have "distinct (j # js) \<longrightarrow> distinct (ys1 @ j # ys2)"
    using js'(1,2) ys(1) by auto
  moreover have "sorted_desc (map f (j # js)) = map f (ys1 @ j # ys2)"
    using js'(3) ys(2) by simp
  ultimately show ?case by blast
qed

subsection \<open>The whole pass\<close>

lemma postprocess_result:
  assumes len: "length labels = length objects" "length probs = length objects"
  shows "\<exists>final. suppress v objects labels probs = Inr final
     \<and> postprocess v objects labels probs = Inr (sorted_desc (filter_None final))
     \<and> length final = length objects
     \<and> (\<forall>j<length objects.
           final ! j = None \<or> final ! j = Some (record_at v objects labels probs j))
     \<and> (\<forall>i<length objects. count_list objects (objects ! i) = 1 \<longrightarrow>
           final ! i = Some (record_at v objects labels probs i))
     \<and> filter_None final =
          map (record_at v objects labels probs)
            (filter (\<lambda>j. final ! j \<noteq> None) [0..<length objects])"
proof -
  from suppress_slots [OF len, of v] obtain final where final:
    "suppress v objects labels probs = Inr final" "length final = length objects"
    "\<forall>j<length objects.
           final ! j = None \<or> final ! j = Some (record_at v objects labels probs j)"
    "\<forall>i<length objects. count_list objects (objects ! i) = 1 \<longrightarrow>
           final ! i = Some (record_at v objects labels probs i)" by blast
  have "postprocess v objects labels probs = Inr (sorted_desc (filter_None final))"
    by (simp add: postprocess_def final(1))
  moreover have "filter_None final =
          map (record_at v objects labels probs)
            (filter (\<lambda>j. final ! j \<noteq> None) [0..<length objects])"
    using filter_None_slots [of final "record_at v objects labels probs"] final(2,3) by simp
  ultimately show ?thesis using final by blast
qed



subsection \<open>\<open>bbs_pixel_apart\<close>\<close>

lemma fabs_subtract_commute: "fabs_subtract a b = fabs_subtract b a"
  by (cases a, cases b) (simp add: fabs_subtract_def abs_minus_commute)

lemma fabs_subtract_same: "np_unique (fabs_subtract a a) = [0]"
  by (cases a) (simp add: fabs_subtract_def np_unique_def)

subsection \<open>Rounding and rescaling\<close>




lemma floor_half: "\<lfloor>of_int n + (1 / 2 :: rat)\<rfloor> = n"
  by linarith

lemma ceiling_half: "\<lceil>of_int n - (1 / 2 :: rat)\<rceil> = n"
  by linarith

lemma py_round_of_int: "py_round v (of_int n) = n"
  by (cases v) (simp_all add: round_half_even_def round_half_away_def floor_half ceiling_half)


lemma round4_examples:
  "py_round_ndigits v (2 / 5) 4 = 2 / 5" "py_round_ndigits v (19 / 20) 4 = 19 / 20"
  "py_round_ndigits v (1 / 2) 4 = 1 / 2" "py_round_ndigits v (9 / 10) 4 = 9 / 10"
  "py_round_ndigits v (1 / 10) 4 = 1 / 10"
  using py_round_of_int [of v 4000] py_round_of_int [of v 9500] py_round_of_int [of v 5000]
    py_round_of_int [of v 9000] py_round_of_int [of v 1000]
  by (simp_all add: py_round_ndigits_def)




subsection \<open>Unfolding the pass on a concrete batch\<close>

lemmas pass_defs = postprocess_def suppress_def pixel_apart_rule_def count_rule_def
  bbs_pixel_apart_def fabs_subtract_def np_unique_def getitem_def setitem_def
  first_index_with_def filter_None_def Let_def

section \<open>The claims\<close>

subsection \<open>C1: two boxes one pixel apart\<close>

text \<open>
  Claim C1 expects one record for the batch \<open>[[0,0,10,10],[0,0,10,11]]\<close> with probabilities
  \<open>[0.4, 0.95]\<close>. The pass returns two, for every interpreter and all labels: the branch on
  the boxes one pixel apart writes the record of index 1 into slot 1, and the branch
  \<open>objects.count(obj) == 1\<close> then writes every box into its own slot, so the box of lower
  probability is kept.
\<close>

theorem pixel_apart_pair_both_kept:
  "postprocess v [(0, 0, 10, 10), (0, 0, 10, 11)] [l0, l1] [2 / 5, 19 / 20] =
     Inr [\<lparr>bbox = (0, 0, 10, 11), label = l1, prob = 19 / 20\<rparr>,
          \<lparr>bbox = (0, 0, 10, 10), label = l0, prob = 2 / 5\<rparr>]"
  by (simp add: pass_defs round4_examples)

subsection \<open>C2: a box whose tuple occurs once is written into its own slot\<close>

text \<open>
  Claim C2: for aligned inputs and every index \<open>i\<close> whose tuple occurs exactly once in
  \<open>objects\<close>, slot \<open>i\<close> holds the record of index \<open>i\<close> when the pass ends, whatever the
  boxes one pixel apart from it are, and that record is in the returned list.
\<close>

theorem unique_box_written:
  assumes "length labels = length objects" "length probs = length objects"
    and "i < length objects" and "count_list objects (objects ! i) = 1"
  shows "\<exists>predictions out.
     suppress v objects labels probs = Inr predictions
     \<and> predictions ! i = Some (record_at v objects labels probs i)
     \<and> postprocess v objects labels probs = Inr out
     \<and> record_at v objects labels probs i \<in> set out"
proof -
  from postprocess_result [OF assms(1,2), of v] obtain final where final:
    "suppress v objects labels probs = Inr final"
    "postprocess v objects labels probs = Inr (sorted_desc (filter_None final))"
    "\<forall>i<length objects. count_list objects (objects ! i) = 1 \<longrightarrow>
           final ! i = Some (record_at v objects labels probs i)"
    "filter_None final =
          map (record_at v objects labels probs)
            (filter (\<lambda>j. final ! j \<noteq> None) [0..<length objects])" by blast
  have slot: "final ! i = Some (record_at v objects labels probs i)"
    using final(3) assms(3,4) by simp
  then have "i \<in> set (filter (\<lambda>j. final ! j \<noteq> None) [0..<length objects])"
    using assms(3) by simp
  then have "record_at v objects labels probs i \<in> set (filter_None final)"
    unfolding final(4) by (simp only: set_map image_eqI)
  then have "record_at v objects labels probs i \<in> set (sorted_desc (filter_None final))"
    by (simp only: set_sorted_desc)
  with final(1,2) slot show ?thesis by blast
qed

text \<open>
  The instance: index 0 of the batch of C1, which loses against index 1 in the branch on the
  boxes one pixel apart.
\<close>

theorem unique_box_written_witness:
  "length [1 :: int, 2] = length ([(0, 0, 10, 10), (0, 0, 10, 11)] :: box list)
   \<and> length [2 / 5, 19 / 20 :: rat] = length ([(0, 0, 10, 10), (0, 0, 10, 11)] :: box list)
   \<and> (0 :: nat) < length ([(0, 0, 10, 10), (0, 0, 10, 11)] :: box list)
   \<and> count_list ([(0, 0, 10, 10), (0, 0, 10, 11)] :: box list)
         (([(0, 0, 10, 10), (0, 0, 10, 11)] :: box list) ! 0) = 1
   \<and> bbs_pixel_apart (0, 0, 10, 10) [(0, 0, 10, 10), (0, 0, 10, 11)] = [1]
   \<and> (\<exists>predictions out.
         suppress Py3 [(0, 0, 10, 10), (0, 0, 10, 11)] [1 :: int, 2] [2 / 5, 19 / 20]
           = Inr predictions
         \<and> predictions ! 0 =
             Some (record_at Py3 [(0, 0, 10, 10), (0, 0, 10, 11)] [1 :: int, 2] [2 / 5, 19 / 20] 0)
         \<and> postprocess Py3 [(0, 0, 10, 10), (0, 0, 10, 11)] [1 :: int, 2] [2 / 5, 19 / 20] = Inr out
         \<and> record_at Py3 [(0, 0, 10, 10), (0, 0, 10, 11)] [1 :: int, 2] [2 / 5, 19 / 20] 0 \<in> set out)"
proof -
  have h1: "length [1 :: int, 2] = length ([(0, 0, 10, 10), (0, 0, 10, 11)] :: box list)" by simp
  have h2: "length [2 / 5, 19 / 20 :: rat] = length ([(0, 0, 10, 10), (0, 0, 10, 11)] :: box list)"
    by simp
  have h3: "(0 :: nat) < length ([(0, 0, 10, 10), (0, 0, 10, 11)] :: box list)" by simp
  have h4: "count_list ([(0, 0, 10, 10), (0, 0, 10, 11)] :: box list)
         (([(0, 0, 10, 10), (0, 0, 10, 11)] :: box list) ! 0) = 1" by simp
  have near: "bbs_pixel_apart (0, 0, 10, 10) [(0, 0, 10, 10), (0, 0, 10, 11)] = [1]"
    by (simp add: bbs_pixel_apart_def fabs_subtract_def np_unique_def)
  note unique_box_written [OF h1 h2 h3 h4, where v = Py3]
  with h1 h2 h3 h4 near show ?thesis by (intro conjI)
qed

subsection \<open>C3: the winner of the branch on the boxes one pixel apart\<close>

text \<open>
  Claim C3 says that ties between the members of a group are broken by the first occurrence
  in the original list. The code appends the current box to the end of the group, after the
  boxes one pixel apart from it (lines 156--158), and takes the first member of that list
  with the greatest probability. For two boxes one pixel apart with equal probabilities,
  processed at index 0, the group is \<open>[1, 0]\<close>: the record of index 1 is written into slot
  1, and slot 0, the first occurrence in the original list, is left empty.
\<close>

theorem pixel_apart_tie_counterexample:
  "bbs_pixel_apart (0, 0, 10, 10) [(0, 0, 10, 10), (0, 0, 10, 11)] = [1]
   \<and> [1 / 2, 1 / 2 :: rat] ! 0 = [1 / 2, 1 / 2] ! 1
   \<and> pixel_apart_rule Py3 [(0, 0, 10, 10), (0, 0, 10, 11)] [1 :: int, 2] [1 / 2, 1 / 2]
         (0, 0, 10, 10) (1 / 2) 0 [None, None]
       = Inr [None, Some \<lparr>bbox = (0, 0, 10, 11), label = 2, prob = 1 / 2\<rparr>]
   \<and> pixel_apart_rule Py3 [(0, 0, 10, 10), (0, 0, 10, 11)] [1 :: int, 2] [1 / 2, 1 / 2]
         (0, 0, 10, 10) (1 / 2) 0 [None, None]
       \<noteq> Inr [Some \<lparr>bbox = (0, 0, 10, 10), label = 1, prob = 1 / 2\<rparr>, None]"
  by (simp add: pass_defs round4_examples)

text \<open>
  Claim C3 as amended: for aligned inputs, a slot array of the length of \<open>objects\<close> and an
  index \<open>count\<close> whose box has at least one box one pixel apart, the branch writes exactly
  one slot. With \<open>group\<close> the boxes one pixel apart in scan order followed by \<open>count\<close>
  itself, the slot written is \<open>group ! k\<close> where \<open>k\<close> is the first position of \<open>group\<close>
  whose probability is the greatest of the group: no member has a greater probability, and
  every member at an earlier position has a smaller one. So the current box wins only when
  its probability is greater than that of every box one pixel apart. The record written
  carries the winner's own box and label and its probability rounded to 4 decimals.
\<close>

theorem pixel_apart_winner:
  assumes "length labels = length objects" "length probs = length objects"
      "length predictions = length objects"
    and "count < length objects"
    and "bbs_pixel_apart (objects ! count) objects \<noteq> []"
  shows "\<exists>k<length (bbs_pixel_apart (objects ! count) objects @ [count]).
     pixel_apart_rule v objects labels probs (objects ! count) (probs ! count) count predictions =
       Inr (predictions[(bbs_pixel_apart (objects ! count) objects @ [count]) ! k :=
              Some \<lparr>bbox = objects ! ((bbs_pixel_apart (objects ! count) objects @ [count]) ! k),
                    label = labels ! ((bbs_pixel_apart (objects ! count) objects @ [count]) ! k),
                    prob = py_round_ndigits v
                      (probs ! ((bbs_pixel_apart (objects ! count) objects @ [count]) ! k)) 4\<rparr>])
     \<and> (\<forall>i\<in>set (bbs_pixel_apart (objects ! count) objects @ [count]).
           probs ! i \<le> probs ! ((bbs_pixel_apart (objects ! count) objects @ [count]) ! k))
     \<and> (\<forall>j<k. probs ! ((bbs_pixel_apart (objects ! count) objects @ [count]) ! j)
                 < probs ! ((bbs_pixel_apart (objects ! count) objects @ [count]) ! k))"
  using pixel_apart_rule_write [OF assms, of v] unfolding record_at_def .

theorem pixel_apart_winner_witness:
  "length [1 :: int, 2] = length ([(0, 0, 10, 10), (0, 0, 10, 11)] :: box list)
   \<and> length [1 / 2, 1 / 2 :: rat] = length ([(0, 0, 10, 10), (0, 0, 10, 11)] :: box list)
   \<and> length [None, None :: int detection option]
       = length ([(0, 0, 10, 10), (0, 0, 10, 11)] :: box list)
   \<and> (0 :: nat) < length ([(0, 0, 10, 10), (0, 0, 10, 11)] :: box list)
   \<and> bbs_pixel_apart ([(0, 0, 10, 10), (0, 0, 10, 11)] ! 0) [(0, 0, 10, 10), (0, 0, 10, 11)]
       \<noteq> []
   \<and> pixel_apart_rule Py3 [(0, 0, 10, 10), (0, 0, 10, 11)] [1 :: int, 2] [1 / 2, 1 / 2]
         ([(0, 0, 10, 10), (0, 0, 10, 11)] ! 0) ([1 / 2, 1 / 2] ! 0) 0 [None, None]
       = Inr [None, Some \<lparr>bbox = (0, 0, 10, 11), label = 2, prob = 1 / 2\<rparr>]"
proof -
  let ?objects = "[(0, 0, 10, 10), (0, 0, 10, 11)] :: box list"
  have near: "bbs_pixel_apart (?objects ! 0) ?objects = [1]"
    by (simp add: bbs_pixel_apart_def fabs_subtract_def np_unique_def)
  have h1: "length [1 :: int, 2] = length ?objects" by simp
  have h2: "length [1 / 2, 1 / 2 :: rat] = length ?objects" by simp
  have h3: "length [None, None :: int detection option] = length ?objects" by simp
  have h4: "(0 :: nat) < length ?objects" by simp
  have h5: "bbs_pixel_apart (?objects ! 0) ?objects \<noteq> []" unfolding near by simp
  from pixel_apart_winner [OF h1 h2 h3 h4 h5, where v = Py3, unfolded near]
  obtain k where k: "k < length ([1] @ [0 :: nat])"
    "pixel_apart_rule Py3 ?objects [1 :: int, 2] [1 / 2, 1 / 2] (?objects ! 0) ([1 / 2, 1 / 2] ! 0) 0
       [None, None] =
       Inr ([None, None][([1] @ [0]) ! k :=
              Some \<lparr>bbox = ?objects ! (([1] @ [0]) ! k),
                    label = [1 :: int, 2] ! (([1] @ [0]) ! k),
                    prob = py_round_ndigits Py3 ([1 / 2, 1 / 2] ! (([1] @ [0]) ! k)) 4\<rparr>])"
    "\<forall>j<k. [1 / 2, 1 / 2 :: rat] ! (([1] @ [0]) ! j) < [1 / 2, 1 / 2] ! (([1] @ [0]) ! k)"
    by blast
  have "k = 0"
  proof (rule ccontr)
    assume "k \<noteq> 0"
    with k(1) have "k = 1" by simp
    with k(3) show False by auto
  qed
  with k(2) have "pixel_apart_rule Py3 ?objects [1 :: int, 2] [1 / 2, 1 / 2] (?objects ! 0)
      ([1 / 2, 1 / 2] ! 0) 0 [None, None]
       = Inr [None, Some \<lparr>bbox = (0, 0, 10, 11), label = 2, prob = 1 / 2\<rparr>]"
    by (simp add: round4_examples)
  with h1 h2 h3 h4 h5 show ?thesis by (intro conjI)
qed

subsection \<open>C4: a tuple that occurs more than once\<close>

text \<open>
  The example of the claim, with no box one pixel apart from the tuple that occurs twice:
  one record is returned, that of the greater probability.
\<close>

lemma exact_duplicate_pair:
  "postprocess v [(0, 0, 10, 10), (0, 0, 10, 10)] [1 :: int, 2] [1 / 2, 9 / 10] =
     Inr [\<lparr>bbox = (0, 0, 10, 10), label = 2, prob = 9 / 10\<rparr>]"
  by (simp add: pass_defs round4_examples)

text \<open>
  Claim C4 expects exactly one record for every tuple that occurs more than once. With a
  third box one pixel apart the pass keeps two records of the tuple \<open>(0, 0, 10, 10)\<close>, for
  every interpreter and all labels: at index 0 the branch on the boxes one pixel apart
  compares index 0 with index 2 only, and writes the record of index 0, which the branch
  \<open>objects.count(obj) > 1\<close> does not take back when it writes the record of index 1.
\<close>

theorem exact_duplicate_loser_kept:
  "postprocess v [(0, 0, 10, 10), (0, 0, 10, 10), (0, 0, 10, 11)] [l0, l1, l2]
       [1 / 2, 9 / 10, 1 / 10] =
     Inr [\<lparr>bbox = (0, 0, 10, 10), label = l1, prob = 9 / 10\<rparr>,
          \<lparr>bbox = (0, 0, 10, 10), label = l0, prob = 1 / 2\<rparr>,
          \<lparr>bbox = (0, 0, 10, 11), label = l2, prob = 1 / 10\<rparr>]"
  by (simp add: pass_defs round4_examples)

subsection \<open>C5: rescaling\<close>



subsection \<open>C6: the assertion on the lengths\<close>



subsection \<open>C7: the returned list is sorted by probability, stably\<close>

text \<open>
  Claim C7: for aligned inputs the returned list is in descending order of \<open>prob\<close> (every
  record is followed by one of at most its probability, and so is every adjacent pair), and
  the records of one and the same probability stand in the order they have in the compacted
  slot array.
\<close>

theorem output_sorted_stable:
  assumes "length labels = length objects" "length probs = length objects"
  shows "\<exists>predictions out.
     suppress v objects labels probs = Inr predictions
     \<and> postprocess v objects labels probs = Inr out
     \<and> (\<forall>n. Suc n < length out \<longrightarrow> prob (out ! Suc n) \<le> prob (out ! n))
     \<and> sorted_wrt (\<lambda>a b. prob b \<le> prob a) out
     \<and> (\<forall>k. filter (\<lambda>r. prob r = k) out = filter (\<lambda>r. prob r = k) (filter_None predictions))"
proof -
  from postprocess_result [OF assms, of v] obtain final where final:
    "suppress v objects labels probs = Inr final"
    "postprocess v objects labels probs = Inr (sorted_desc (filter_None final))" by blast
  let ?out = "sorted_desc (filter_None final)"
  have srt: "sorted_wrt (\<lambda>a b. prob b \<le> prob a) ?out" by (rule sorted_sorted_desc)
  then have "\<forall>n. Suc n < length ?out \<longrightarrow> prob (?out ! Suc n) \<le> prob (?out ! n)"
    by (simp add: sorted_wrt_iff_nth_less)
  moreover have "\<forall>k. filter (\<lambda>r. prob r = k) ?out = filter (\<lambda>r. prob r = k) (filter_None final)"
    by (simp add: sorted_desc_stable)
  ultimately show ?thesis using final srt by blast
qed

text \<open>The instance has a tie between the first and the third box.\<close>

theorem output_sorted_stable_witness:
  "length [1 :: int, 2, 3] = length ([(0, 0, 10, 10), (5, 5, 20, 20), (30, 30, 40, 40)] :: box list)
   \<and> length [1 / 2, 9 / 10, 1 / 2 :: rat]
       = length ([(0, 0, 10, 10), (5, 5, 20, 20), (30, 30, 40, 40)] :: box list)
   \<and> (\<exists>predictions out.
         suppress Py3 [(0, 0, 10, 10), (5, 5, 20, 20), (30, 30, 40, 40)] [1 :: int, 2, 3]
           [1 / 2, 9 / 10, 1 / 2] = Inr predictions
         \<and> postprocess Py3 [(0, 0, 10, 10), (5, 5, 20, 20), (30, 30, 40, 40)] [1 :: int, 2, 3]
           [1 / 2, 9 / 10, 1 / 2] = Inr out
         \<and> (\<forall>n. Suc n < length out \<longrightarrow> prob (out ! Suc n) \<le> prob (out ! n))
         \<and> sorted_wrt (\<lambda>a b. prob b \<le> prob a) out
         \<and> (\<forall>k. filter (\<lambda>r. prob r = k) out
                = filter (\<lambda>r. prob r = k) (filter_None predictions)))
   \<and> postprocess Py3 [(0, 0, 10, 10), (5, 5, 20, 20), (30, 30, 40, 40)] [1 :: int, 2, 3]
           [1 / 2, 9 / 10, 1 / 2]
       = Inr [\<lparr>bbox = (5, 5, 20, 20), label = 2, prob = 9 / 10\<rparr>,
              \<lparr>bbox = (0, 0, 10, 10), label = 1, prob = 1 / 2\<rparr>,
              \<lparr>bbox = (30, 30, 40, 40), label = 3, prob = 1 / 2\<rparr>]"
proof -
  let ?objects = "[(0, 0, 10, 10), (5, 5, 20, 20), (30, 30, 40, 40)] :: box list"
  have h1: "length [1 :: int, 2, 3] = length ?objects" by simp
  have h2: "length [1 / 2, 9 / 10, 1 / 2 :: rat] = length ?objects" by simp
  have out: "postprocess Py3 ?objects [1 :: int, 2, 3] [1 / 2, 9 / 10, 1 / 2]
       = Inr [\<lparr>bbox = (5, 5, 20, 20), label = 2, prob = 9 / 10\<rparr>,
              \<lparr>bbox = (0, 0, 10, 10), label = 1, prob = 1 / 2\<rparr>,
              \<lparr>bbox = (30, 30, 40, 40), label = 3, prob = 1 / 2\<rparr>]"
    by (simp add: pass_defs round4_examples)
  note output_sorted_stable [OF h1 h2, where v = Py3]
  with h1 h2 out show ?thesis by (intro conjI)
qed

subsection \<open>C8: the returned list is not longer than the input\<close>

text \<open>
  Claim C8: for aligned inputs of \<open>N\<close> boxes the returned list has at most \<open>N\<close> records, and
  for no box at all the result is the empty list, without an error.
\<close>

theorem output_length_le:
  "(length labels = length objects \<and> length probs = length objects \<longrightarrow>
      (\<exists>out. postprocess v objects labels probs = Inr out \<and> length out \<le> length objects))
   \<and> postprocess v [] [] [] = Inr []"
proof (intro conjI impI)
  assume len: "length labels = length objects \<and> length probs = length objects"
  then obtain final where final:
    "postprocess v objects labels probs = Inr (sorted_desc (filter_None final))"
    "length final = length objects"
    using postprocess_result [of labels objects probs v] by blast
  have "length (sorted_desc (filter_None final)) \<le> length objects"
    using length_filter_None [of final] final(2) by (simp add: length_sorted_desc)
  with final(1) show "\<exists>out. postprocess v objects labels probs = Inr out \<and> length out \<le> length objects"
    by blast
next
  show "postprocess v [] [] [] = Inr []"
    by (simp add: postprocess_def suppress_def filter_None_def)
qed

theorem output_length_le_witness:
  "length [1 :: int, 2] = length ([(0, 0, 10, 10), (0, 0, 10, 10)] :: box list)
   \<and> length [1 / 2, 9 / 10 :: rat] = length ([(0, 0, 10, 10), (0, 0, 10, 10)] :: box list)
   \<and> (\<exists>out. postprocess Py3 [(0, 0, 10, 10), (0, 0, 10, 10)] [1 :: int, 2] [1 / 2, 9 / 10]
              = Inr out
            \<and> length out \<le> length ([(0, 0, 10, 10), (0, 0, 10, 10)] :: box list))
   \<and> postprocess Py3 [] ([] :: int list) [] = Inr []"
  using output_length_le [where v = Py3 and objects = "([(0, 0, 10, 10), (0, 0, 10, 10)] :: box list)"
      and labels = "[1 :: int, 2]" and probs = "[1 / 2, 9 / 10]"]
    output_length_le [where v = Py3 and objects = "[]" and labels = "[] :: int list"
      and probs = "[]"]
  by simp

subsection \<open>C9: every record comes from one input index\<close>

text \<open>
  Claim C9: for aligned inputs every slot of the array is empty or holds the record of its
  own index when the pass ends, and the returned list is the list of the records
  \<open>(objects[i], labels[i], round(probs[i], 4))\<close> of pairwise distinct input indices \<open>i\<close>.
\<close>

theorem output_provenance:
  assumes "length labels = length objects" "length probs = length objects"
  shows "\<exists>predictions idxs.
     suppress v objects labels probs = Inr predictions
     \<and> (\<forall>j<length objects. predictions ! j = None
            \<or> predictions ! j = Some (record_at v objects labels probs j))
     \<and> distinct idxs \<and> (\<forall>i\<in>set idxs. i < length objects)
     \<and> postprocess v objects labels probs = Inr (map (record_at v objects labels probs) idxs)"
proof -
  from postprocess_result [OF assms, of v] obtain final where final:
    "suppress v objects labels probs = Inr final"
    "postprocess v objects labels probs = Inr (sorted_desc (filter_None final))"
    "\<forall>j<length objects.
           final ! j = None \<or> final ! j = Some (record_at v objects labels probs j)"
    "filter_None final =
          map (record_at v objects labels probs)
            (filter (\<lambda>j. final ! j \<noteq> None) [0..<length objects])" by blast
  let ?js = "filter (\<lambda>j. final ! j \<noteq> None) [0..<length objects]"
  from sorted_desc_map [of ?js "record_at v objects labels probs"] obtain idxs where idxs:
    "set idxs = set ?js" "distinct ?js \<longrightarrow> distinct idxs"
    "sorted_desc (map (record_at v objects labels probs) ?js) =
       map (record_at v objects labels probs) idxs" by blast
  have "distinct idxs" using idxs(2) by simp
  moreover have "\<forall>i\<in>set idxs. i < length objects" unfolding idxs(1) by simp
  moreover have "postprocess v objects labels probs =
      Inr (map (record_at v objects labels probs) idxs)"
    unfolding final(2) final(4) idxs(3) ..
  ultimately show ?thesis using final(1,3) by blast
qed

theorem output_provenance_witness:
  "length [1 :: int, 2] = length ([(0, 0, 10, 10), (0, 0, 10, 10)] :: box list)
   \<and> length [1 / 2, 9 / 10 :: rat] = length ([(0, 0, 10, 10), (0, 0, 10, 10)] :: box list)
   \<and> (\<exists>predictions idxs.
         suppress Py3 [(0, 0, 10, 10), (0, 0, 10, 10)] [1 :: int, 2] [1 / 2, 9 / 10]
           = Inr predictions
         \<and> (\<forall>j<length ([(0, 0, 10, 10), (0, 0, 10, 10)] :: box list). predictions ! j = None
              \<or> predictions ! j =
                  Some (record_at Py3 [(0, 0, 10, 10), (0, 0, 10, 10)] [1 :: int, 2] [1 / 2, 9 / 10] j))
         \<and> distinct idxs
         \<and> (\<forall>i\<in>set idxs. i < length ([(0, 0, 10, 10), (0, 0, 10, 10)] :: box list))
         \<and> postprocess Py3 [(0, 0, 10, 10), (0, 0, 10, 10)] [1 :: int, 2] [1 / 2, 9 / 10]
           = Inr (map (record_at Py3 [(0, 0, 10, 10), (0, 0, 10, 10)] [1 :: int, 2] [1 / 2, 9 / 10])
                    idxs))"
proof -
  have h1: "length [1 :: int, 2] = length ([(0, 0, 10, 10), (0, 0, 10, 10)] :: box list)" by simp
  have h2: "length [1 / 2, 9 / 10 :: rat] = length ([(0, 0, 10, 10), (0, 0, 10, 10)] :: box list)"
    by simp
  note output_provenance [OF h1 h2, where v = Py3]
  with h1 h2 show ?thesis by (intro conjI)
qed

subsection \<open>C10: \<open>bbs_pixel_apart\<close> is symmetric, and never relates equal boxes\<close>

text \<open>
  Claim C10: for two indices \<open>i\<close> and \<open>j\<close> of \<open>objects\<close>, \<open>i\<close> is among the indices
  \<open>bbs_pixel_apart\<close> returns for the box of \<open>j\<close> if and only if \<open>j\<close> is among those it
  returns for the box of \<open>i\<close>; and when the two boxes are equal, neither is.
\<close>

theorem bbs_pixel_apart_symmetric:
  assumes "i < length objects" "j < length objects"
  shows "(i \<in> set (bbs_pixel_apart (objects ! j) objects)
           \<longleftrightarrow> j \<in> set (bbs_pixel_apart (objects ! i) objects))
     \<and> (objects ! i = objects ! j \<longrightarrow> i \<notin> set (bbs_pixel_apart (objects ! j) objects))"
proof
  show "i \<in> set (bbs_pixel_apart (objects ! j) objects)
           \<longleftrightarrow> j \<in> set (bbs_pixel_apart (objects ! i) objects)"
    using assms fabs_subtract_commute [of "objects ! i" "objects ! j"]
    by (simp add: bbs_pixel_apart_filter)
next
  show "objects ! i = objects ! j \<longrightarrow> i \<notin> set (bbs_pixel_apart (objects ! j) objects)"
    by (simp add: bbs_pixel_apart_filter fabs_subtract_same)
qed

theorem bbs_pixel_apart_symmetric_witness:
  "(0 :: nat) < length ([(0, 0, 10, 10), (0, 0, 10, 11), (0, 0, 10, 10)] :: box list)
   \<and> (1 :: nat) < length ([(0, 0, 10, 10), (0, 0, 10, 11), (0, 0, 10, 10)] :: box list)
   \<and> (2 :: nat) < length ([(0, 0, 10, 10), (0, 0, 10, 11), (0, 0, 10, 10)] :: box list)
   \<and> 0 \<in> set (bbs_pixel_apart ([(0, 0, 10, 10), (0, 0, 10, 11), (0, 0, 10, 10)] ! 1) [(0, 0, 10, 10), (0, 0, 10, 11), (0, 0, 10, 10)])
   \<and> 0 \<notin> set (bbs_pixel_apart ([(0, 0, 10, 10), (0, 0, 10, 11), (0, 0, 10, 10)] ! 2) [(0, 0, 10, 10), (0, 0, 10, 11), (0, 0, 10, 10)])"
proof -
  let ?objects = "[(0, 0, 10, 10), (0, 0, 10, 11), (0, 0, 10, 10)] :: box list"
  have h0: "(0 :: nat) < length ?objects" and h1: "(1 :: nat) < length ?objects"
    and h2: "(2 :: nat) < length ?objects" by simp_all
  have one: "1 \<in> set (bbs_pixel_apart (?objects ! 0) ?objects)"
    by (simp add: bbs_pixel_apart_def fabs_subtract_def np_unique_def)
  have same: "?objects ! 0 = ?objects ! 2" by simp
  from bbs_pixel_apart_symmetric [OF h0 h1] one
  have "0 \<in> set (bbs_pixel_apart (?objects ! 1) ?objects)" by blast
  moreover from bbs_pixel_apart_symmetric [OF h0 h2] same
  have "0 \<notin> set (bbs_pixel_apart (?objects ! 2) ?objects)" by blast
  ultimately show ?thesis using h0 h1 h2 by (intro conjI)
qed

end
